theory Spec2Isabelle
  imports Main "HOL-Library.Word"
begin

unbundle bit_operations_syntax

section \<open>The byte-stream data source of openxc/sources/base.py\<close>

subsection \<open>Bytes, exceptions\<close>

type_synonym byte = "8 word"
type_synonym bytes = "byte list"

text \<open>
  The exceptions that can leave \<open>_parse_message\<close>: both come from the varint reader,
  which \<open>_parse_message\<close> calls outside any \<open>try\<close> block.
\<close>

datatype error = IndexError | DecodeError

subsection \<open>The varint reader\<close>

text \<open>
  \<open>_DecodeVarint\<close> is imported from the protobuf runtime
  (\<open>google.protobuf.internal.decoder\<close>, base.py line 5); it is the runtime's
  pure-Python reader of base-128 varints, with a 64-bit mask:
  \<^verbatim>\<open>
    def DecodeVarint(buffer, pos):
      result = 0
      shift = 0
      while 1:
        b = local_ord(buffer[pos])
        result |= ((b & 0x7f) << shift)
        pos += 1
        if not (b & 0x80):
          result &= mask
          return (result, pos)
        shift += 7
        if shift >= 64:
          raise _DecodeError('Too many bytes when decoding varint.')
  \<close>
  Indexing the buffer at or beyond its length raises IndexError. \<open>pos\<close> is never
  negative here: the caller passes an index it has just found plus one.
\<close>

function DecodeVarint_loop :: "bytes \<Rightarrow> nat \<Rightarrow> nat \<Rightarrow> nat \<Rightarrow> error + (nat \<times> nat)" where
  "DecodeVarint_loop buffer pos result shift =
     (if length buffer \<le> pos then Inl IndexError
      else
        let b = buffer ! pos;
            result = result OR push_bit shift (unat (b AND 0x7f));
            pos = pos + 1
        in if b AND 0x80 = 0 then Inr (result AND (2 ^ 64 - 1), pos)
           else
             let shift = shift + 7
             in if shift \<ge> 64 then Inl DecodeError
                else DecodeVarint_loop buffer pos result shift)"
  by pat_completeness auto
termination
  by (relation "measure (\<lambda>(buffer, pos, result, shift). length buffer - pos)") auto

declare DecodeVarint_loop.simps [simp del]

definition DecodeVarint :: "bytes \<Rightarrow> nat \<Rightarrow> error + (nat \<times> nat)" where
  "DecodeVarint buffer pos = DecodeVarint_loop buffer pos 0 0"

subsection \<open>Decoded messages\<close>

text \<open>
  The values a parsed message can hold. \<open>'d\<close> stands for the doubles of the protobuf
  schema: the source only copies them, it never computes with them.
\<close>

datatype 'd pyval = PyInt int | PyFloat 'd | PyBool bool | PyStr string

text \<open>
  A Python dict whose keys are strings, as an association list in insertion order.
  \<open>d[k] = v\<close> is \<open>setitem\<close>, \<open>k in d\<close> is \<open>contains\<close>.
\<close>

type_synonym 'd dict = "(string \<times> 'd pyval) list"

fun setitem :: "'d dict \<Rightarrow> string \<Rightarrow> 'd pyval \<Rightarrow> 'd dict" where
  "setitem [] k v = [(k, v)]"
| "setitem ((k', v') # d) k v = (if k' = k then (k, v) # d else (k', v') # setitem d k v)"

definition contains :: "'d dict \<Rightarrow> string \<Rightarrow> bool" where
  "contains d k \<longleftrightarrow> k \<in> set (map fst d)"

text \<open>
  Modelled from the spec: the generated module \<open>openxc_pb2\<close> is not under src/. The
  records below hold the fields of \<open>VehicleMessage\<close> that \<open>_parse_message\<close> reads,
  as section 3 of the specification lists them: a raw message with an optional bus,
  message id and data; a translated message with a name, at most one value and at most
  one event. An optional field is \<open>None\<close> when \<open>HasField\<close> is false; \<open>name\<close> is read
  without \<open>HasField\<close> and is the empty string when absent.
\<close>

datatype msg_type = RAW | TRANSLATED

record RawMessage =
  bus :: "int option"
  message_id :: "int option"
  data :: "int option"

record 'd TranslatedMessage =
  name :: string
  numerical_value :: "'d option"
  boolean_value :: "bool option"
  string_value :: "string option"
  numerical_event :: "'d option"
  boolean_event :: "bool option"
  string_event :: "string option"

record 'd VehicleMessage =
  mtype :: msg_type
  raw_message :: RawMessage
  translated_message :: "'d TranslatedMessage"

text \<open>Python's \<open>"0x%x" % n\<close>: lower-case hexadecimal, a minus sign before the digits.\<close>

definition hex_digit :: "nat \<Rightarrow> char" where
  "hex_digit n = ''0123456789abcdef'' ! n"

fun hex_nat :: "nat \<Rightarrow> string" where
  "hex_nat n = (if n < 16 then [hex_digit n] else hex_nat (n div 16) @ [hex_digit (n mod 16)])"

declare hex_nat.simps [simp del]

definition format_0x :: "int \<Rightarrow> string" where
  "format_0x n = ''0x'' @ (if n < 0 then ''-'' @ hex_nat (nat (- n)) else hex_nat (nat n))"

text \<open>Lines 116 to 138: the dict built from a message that deserialized.\<close>

definition raw_dict :: "RawMessage \<Rightarrow> 'd dict" where
  "raw_dict raw =
     (let parsed_message = [];
          parsed_message = (case bus raw of
             Some b \<Rightarrow> setitem parsed_message ''bus'' (PyInt b) | None \<Rightarrow> parsed_message);
          parsed_message = (case message_id raw of
             Some i \<Rightarrow> setitem parsed_message ''id'' (PyInt i) | None \<Rightarrow> parsed_message);
          parsed_message = (case data raw of
             Some x \<Rightarrow> setitem parsed_message ''data'' (PyStr (format_0x x))
           | None \<Rightarrow> parsed_message)
      in parsed_message)"

definition translated_dict :: "'d TranslatedMessage \<Rightarrow> 'd dict" where
  "translated_dict t =
     (let parsed_message = setitem [] ''name'' (PyStr (name t));
          parsed_message =
            (case numerical_value t of
               Some x \<Rightarrow> setitem parsed_message ''value'' (PyFloat x)
             | None \<Rightarrow>
            (case boolean_value t of
               Some x \<Rightarrow> setitem parsed_message ''value'' (PyBool x)
             | None \<Rightarrow>
            (case string_value t of
               Some x \<Rightarrow> setitem parsed_message ''value'' (PyStr x)
             | None \<Rightarrow> parsed_message)));
          parsed_message =
            (case numerical_event t of
               Some x \<Rightarrow> setitem parsed_message ''event'' (PyFloat x)
             | None \<Rightarrow>
            (case boolean_event t of
               Some x \<Rightarrow> setitem parsed_message ''event'' (PyBool x)
             | None \<Rightarrow>
            (case string_event t of
               Some x \<Rightarrow> setitem parsed_message ''event'' (PyStr x)
             | None \<Rightarrow> parsed_message)))
      in parsed_message)"

definition message_dict :: "'d VehicleMessage \<Rightarrow> 'd dict" where
  "message_dict message =
     (if mtype message = RAW then raw_dict (raw_message message)
      else translated_dict (translated_message message))"

subsection \<open>Frame extraction: \<open>_parse_message\<close>\<close>

text \<open>\<open>bytes.find\<close> of a single byte: the first index holding it, \<open>None\<close> for -1.\<close>

fun find :: "bytes \<Rightarrow> byte \<Rightarrow> nat option" where
  "find [] c = None"
| "find (b # bs) c = (if b = c then Some 0 else map_option Suc (find bs c))"

text \<open>
  Lines 96 to 106: the slicing half of \<open>_parse_message\<close>. It returns
  \<open>message_data\<close> and \<open>remainder\<close>; where the guard of line 100 fails they keep their
  initial values, the empty string and the whole buffer. A Python slice stops at the end
  of the buffer, as \<open>take\<close> and \<open>drop\<close> do. An exception of the varint reader is not
  caught.
\<close>

definition slice_frame :: "bytes \<Rightarrow> error + (bytes \<times> bytes)" where
  "slice_frame message_buffer =
     (case find message_buffer 0 of
        None \<Rightarrow> Inr ([], message_buffer)
      | Some footer_index \<Rightarrow>
          if footer_index + 1 < length message_buffer then
            (case DecodeVarint message_buffer (footer_index + 1) of
               Inl e \<Rightarrow> Inl e
             | Inr (message_length, message_start) \<Rightarrow>
                 let message_data = take message_length (drop message_start message_buffer);
                     remainder = drop (message_start + message_length) message_buffer
                 in Inr (message_data, remainder))
          else Inr ([], message_buffer))"

text \<open>
  \<open>_parse_message\<close>. \<open>ParseFromString\<close> is the deserializer of the generated
  \<open>VehicleMessage\<close> class, taken as a parameter: \<open>None\<close> when it raises
  \<open>DecodeError\<close> or \<open>UnicodeDecodeError\<close>, which lines 111 to 114 catch and log.
  The buffer that \<open>run\<close> passes is always a byte string, so the \<open>encode\<close> of line 95
  does not run. The result is \<open>(parsed_message, remainder, len(message_data))\<close>.
\<close>

definition parse_message ::
  "(bytes \<Rightarrow> 'd VehicleMessage option) \<Rightarrow> bytes \<Rightarrow> error + ('d dict option \<times> bytes \<times> nat)" where
  "parse_message ParseFromString message_buffer =
     (case slice_frame message_buffer of
        Inl e \<Rightarrow> Inl e
      | Inr (message_data, remainder) \<Rightarrow>
          let parsed_message =
                (if length message_data > 1
                 then map_option message_dict (ParseFromString message_data)
                 else None)
          in Inr (parsed_message, remainder, length message_data))"

subsection \<open>The ingestion loop: \<open>run\<close>\<close>

text \<open>
  The source object and what \<open>run\<close> works on: whether a callback is set, the two
  counters, the local \<open>message_buffer\<close>, and the calls made to the callback so far
  (message and \<open>data_remaining\<close>), oldest first. The callback is taken not to raise.
\<close>

record 'd source =
  callback :: bool
  bytes_received :: nat
  corrupted_messages :: nat
  message_buffer :: bytes
  calls :: "('d dict \<times> bool) list"

text \<open>\<open>__init__\<close>, lines 53 to 56, with the buffer and the call log empty.\<close>

definition init :: "bool \<Rightarrow> 'd source" where
  "init cb = \<lparr>callback = cb, bytes_received = 0, corrupted_messages = 0,
              message_buffer = [], calls = []\<rparr>"

text \<open>
  Lines 76 to 78. A parsed message is a dict, which has \<open>__iter__\<close>, so the first
  disjunct of the test is always false.
\<close>

definition recognized :: "'d dict \<Rightarrow> bool" where
  "recognized message \<longleftrightarrow>
     (contains message ''name'' \<and> contains message ''value'') \<or>
     (contains message ''id'' \<and> contains message ''data'')"

text \<open>Lines 82 to 85.\<close>

definition dispatch :: "'d dict \<Rightarrow> nat \<Rightarrow> 'd source \<Rightarrow> 'd source" where
  "dispatch message byte_count s =
     (let s = s\<lparr>bytes_received := bytes_received s + byte_count\<rparr>
      in if callback s
         then s\<lparr>calls := calls s @ [(message, length (message_buffer s) > 0)]\<rparr>
         else s)"

lemma slice_frame_shrinks:
  assumes "slice_frame buf = Inr (md, r)" and "length md > 1"
  shows "length r < length buf"
  using assms
  by (auto simp: slice_frame_def Let_def split: option.splits if_splits sum.splits)

lemma parse_message_shrinks:
  assumes "parse_message P buf = Inr (Some m, r, c)"
  shows "length r < length buf"
  using assms slice_frame_shrinks [of buf]
  by (auto simp: parse_message_def Let_def split: sum.splits if_splits)

text \<open>
  The inner loop, lines 71 to 85. An exception of \<open>_parse_message\<close> leaves \<open>run\<close>
  (which catches only \<open>DataSourceError\<close>, and only around \<open>_read\<close>); the state is
  then as it was before the call.
\<close>

function drain ::
  "(bytes \<Rightarrow> 'd VehicleMessage option) \<Rightarrow> 'd source \<Rightarrow> error option \<times> 'd source" where
  "drain P s =
     (case parse_message P (message_buffer s) of
        Inl e \<Rightarrow> (Some e, s)
      | Inr (message, remainder, byte_count) \<Rightarrow>
          let s = s\<lparr>message_buffer := remainder\<rparr>
          in (case message of
                None \<Rightarrow> (None, s)
              | Some m \<Rightarrow>
                  if \<not> recognized m
                  then (None, s\<lparr>corrupted_messages := corrupted_messages s + 1\<rparr>)
                  else drain P (dispatch m byte_count s)))"
  by pat_completeness auto
termination
proof (relation "measure (\<lambda>(P, s). length (message_buffer s))", goal_cases)
  case 1
  show ?case by simp
next
  case (2 P s x2 message y remainder byte_count s' m)
  then show ?case
    using parse_message_shrinks [of P "message_buffer s" m remainder byte_count]
    by (simp add: dispatch_def Let_def)
qed

declare drain.simps [simp del]

text \<open>
  The outer loop, lines 64 to 69, run over the results of the successive \<open>_read\<close>
  calls: bytes, or \<open>DataSourceError\<close>. The loop has no other exit, so after the last
  result of the list it is waiting in the next \<open>_read\<close>.
\<close>

datatype read_result = Data bytes | DataSourceError

datatype outcome = Reading | Stopped | Raised error

fun run_loop ::
  "(bytes \<Rightarrow> 'd VehicleMessage option) \<Rightarrow> read_result list \<Rightarrow> 'd source \<Rightarrow> outcome \<times> 'd source" where
  "run_loop P [] s = (Reading, s)"
| "run_loop P (DataSourceError # rs) s = (Stopped, s)"
| "run_loop P (Data bs # rs) s =
     (case drain P (s\<lparr>message_buffer := message_buffer s @ bs\<rparr>) of
        (Some e, s') \<Rightarrow> (Raised e, s')
      | (None, s') \<Rightarrow> run_loop P rs s')"

definition run ::
  "(bytes \<Rightarrow> 'd VehicleMessage option) \<Rightarrow> read_result list \<Rightarrow> 'd source \<Rightarrow> outcome \<times> 'd source" where
  "run P reads s = run_loop P reads (s\<lparr>message_buffer := []\<rparr>)"

subsection \<open>Frames on the wire, and what the loop dispatches\<close>

text \<open>
  The value of a base-128 little-endian varint: seven bits per byte, lowest group first.
  A varint is complete when every byte but the last has the continuation bit \<open>0x80\<close>
  and the last has not; the reader accepts at most ten bytes and keeps 64 bits.
\<close>

fun varint_value :: "bytes \<Rightarrow> nat" where
  "varint_value [] = 0"
| "varint_value (b # bs) = unat (b AND 0x7f) + 128 * varint_value bs"

fun well_terminated :: "bytes \<Rightarrow> bool" where
  "well_terminated [] = False"
| "well_terminated [b] = (b AND 0x80 = 0)"
| "well_terminated (b # bs) = (b AND 0x80 \<noteq> 0 \<and> well_terminated bs)"

definition complete_varint :: "bytes \<Rightarrow> bool" where
  "complete_varint vs \<longleftrightarrow> well_terminated vs \<and> length vs \<le> 10"

definition declared_length :: "bytes \<Rightarrow> nat" where
  "declared_length vs = varint_value vs mod 2 ^ 64"

text \<open>
  The payloads of the frames that one run of the inner loop accepts and dispatches,
  in order. This function observes the loop; \<open>drain\<close> does not use it.
\<close>

function dispatched :: "(bytes \<Rightarrow> 'd VehicleMessage option) \<Rightarrow> bytes \<Rightarrow> bytes list" where
  "dispatched P buf =
     (case slice_frame buf of
        Inl e \<Rightarrow> []
      | Inr (message_data, remainder) \<Rightarrow>
          if 1 < length message_data then
            (case P message_data of
               None \<Rightarrow> []
             | Some v \<Rightarrow>
                 if recognized (message_dict v) then message_data # dispatched P remainder
                 else [])
          else [])"
  by pat_completeness auto
termination
proof (relation "measure (\<lambda>(P, buf). length buf)", goal_cases)
  case 1
  show ?case by simp
next
  case (2 P buf x2 message_data remainder v)
  then show ?case
    using slice_frame_shrinks [of buf message_data remainder] by simp
qed

declare dispatched.simps [simp del]

text \<open>The same over the read cycles of \<open>run_loop\<close>.\<close>

fun run_dispatched ::
  "(bytes \<Rightarrow> 'd VehicleMessage option) \<Rightarrow> read_result list \<Rightarrow> 'd source \<Rightarrow> bytes list" where
  "run_dispatched P [] s = []"
| "run_dispatched P (DataSourceError # rs) s = []"
| "run_dispatched P (Data bs # rs) s =
     (let s1 = s\<lparr>message_buffer := message_buffer s @ bs\<rparr>
      in dispatched P (message_buffer s1) @
         (case drain P s1 of
            (Some e, s') \<Rightarrow> []
          | (None, s') \<Rightarrow> run_dispatched P rs s'))"

subsection \<open>A deserializer for the worked examples\<close>

text \<open>
  The worked examples below need some deserializer. This one knows three payloads: a
  translated message with a name and a value, a raw message with an id and data, and a
  translated message with a name only; every other payload fails to deserialize. Doubles
  are stood in for by integers.
\<close>

definition speed_message :: "int VehicleMessage" where
  "speed_message =
     \<lparr>mtype = TRANSLATED,
      raw_message = \<lparr>bus = None, message_id = None, data = None\<rparr>,
      translated_message =
        \<lparr>name = ''speed'', numerical_value = Some 42, boolean_value = None,
         string_value = None, numerical_event = None, boolean_event = None,
         string_event = None\<rparr>\<rparr>"

definition can_message :: "int VehicleMessage" where
  "can_message =
     \<lparr>mtype = RAW,
      raw_message = \<lparr>bus = Some 1, message_id = Some 256, data = Some 3735928559\<rparr>,
      translated_message =
        \<lparr>name = [], numerical_value = None, boolean_value = None,
         string_value = None, numerical_event = None, boolean_event = None,
         string_event = None\<rparr>\<rparr>"

definition bare_message :: "int VehicleMessage" where
  "bare_message =
     \<lparr>mtype = TRANSLATED,
      raw_message = \<lparr>bus = None, message_id = None, data = None\<rparr>,
      translated_message =
        \<lparr>name = ''door'', numerical_value = None, boolean_value = None,
         string_value = None, numerical_event = None, boolean_event = None,
         string_event = None\<rparr>\<rparr>"

definition example_parser :: "bytes \<Rightarrow> int VehicleMessage option" where
  "example_parser payload =
     (if payload = [1, 1] then Some speed_message
      else if payload = [2, 2, 2] then Some can_message
      else if payload = [3, 3] then Some bare_message
      else None)"

definition fresh :: "int source" where
  "fresh = init True"

text \<open>
  Three reads, one frame each: a translated message with a value, a translated message
  with a name only, a raw message with id and data.
\<close>

definition three_reads :: "read_result list" where
  "three_reads = [Data [0, 2, 1, 1], Data [0, 2, 3, 3], Data [0, 3, 2, 2, 2]]"

section \<open>Properties\<close>

subsection \<open>The varint reader decodes complete varints\<close>

lemma loop_end:
  "length buffer \<le> pos \<Longrightarrow> DecodeVarint_loop buffer pos r s = Inl IndexError"
  by (subst DecodeVarint_loop.simps) simp

lemma loop_last:
  "pos < length buffer \<Longrightarrow> buffer ! pos AND 0x80 = 0 \<Longrightarrow>
   DecodeVarint_loop buffer pos r s =
     Inr ((r OR push_bit s (unat (buffer ! pos AND 0x7f))) AND (2 ^ 64 - 1), pos + 1)"
  by (subst DecodeVarint_loop.simps) (simp add: Let_def)

lemma loop_more:
  "pos < length buffer \<Longrightarrow> buffer ! pos AND 0x80 \<noteq> 0 \<Longrightarrow> s + 7 < 64 \<Longrightarrow>
   DecodeVarint_loop buffer pos r s =
     DecodeVarint_loop buffer (pos + 1) (r OR push_bit s (unat (buffer ! pos AND 0x7f))) (s + 7)"
  by (subst DecodeVarint_loop.simps) (simp add: Let_def)

lemma loop_too_many:
  "pos < length buffer \<Longrightarrow> buffer ! pos AND 0x80 \<noteq> 0 \<Longrightarrow> 64 \<le> s + 7 \<Longrightarrow>
   DecodeVarint_loop buffer pos r s = Inl DecodeError"
  by (subst DecodeVarint_loop.simps) (simp add: Let_def)

lemmas loop_steps = loop_end loop_last loop_more loop_too_many

lemma or_push_bit_add:
  fixes r :: nat
  assumes "r < 2 ^ s"
  shows "r OR push_bit s x = r + x * 2 ^ s"
proof -
  have r: "take_bit s r = r"
    using assms by (simp add: take_bit_nat_eq_self_iff)
  have "\<not> bit (take_bit s r) n \<or> \<not> bit (push_bit s x) n" for n
    by (auto simp: bit_take_bit_iff bit_push_bit_iff)
  then have "r + push_bit s x = r OR push_bit s x"
    unfolding r by (rule disjunctive_add)
  then show ?thesis
    by (simp add: push_bit_eq_mult)
qed

lemma and_mask64: "(n::nat) AND (2 ^ 64 - 1) = n mod 2 ^ 64"
proof -
  have "n AND mask 64 = take_bit 64 n"
    by (simp only: take_bit_eq_mask)
  then show ?thesis
    by (simp add: mask_eq_exp_minus_1 take_bit_nat_def)
qed

lemma and_mask64_numeral:
  "(n::nat) AND 18446744073709551615 = n mod 18446744073709551616"
  using and_mask64 [of n] by simp

lemma low7_bound: "unat ((b::byte) AND 0x7f) \<le> 127"
proof -
  have "unat (b AND 0x7f) \<le> unat (0x7f :: byte)"
    by (rule word_and_le1 [THEN word_le_nat_alt [THEN iffD1]])
  then show ?thesis by simp
qed

lemma loop_decodes:
  "well_terminated vs \<Longrightarrow> r < 2 ^ s \<Longrightarrow> s + 7 * length vs \<le> 70 \<Longrightarrow>
   DecodeVarint_loop (pre @ vs @ rest) (length pre) r s =
     Inr ((r + 2 ^ s * varint_value vs) mod 2 ^ 64, length pre + length vs)"
proof (induction vs arbitrary: pre r s rule: well_terminated.induct)
  case 1
  then show ?case by simp
next
  case (2 b)
  then show ?case
    by (simp add: loop_last or_push_bit_add and_mask64_numeral mult.commute)
next
  case (3 b b' bs)
  let ?x = "unat (b AND 0x7f)"
  let ?r = "r + ?x * 2 ^ s"
  from 3 have cont: "b AND 0x80 \<noteq> 0" and wt: "well_terminated (b' # bs)" and s: "s + 7 < 64"
    by simp_all
  have "?x * 2 ^ s \<le> 127 * 2 ^ s"
    by (rule mult_le_mono1) (rule low7_bound)
  with \<open>r < 2 ^ s\<close> have "?r < 2 ^ s + 127 * 2 ^ s"
    by linarith
  also have "\<dots> = 2 ^ (s + 7)"
    by (simp add: power_add)
  finally have r': "?r < 2 ^ (s + 7)" .
  have len: "s + 7 + 7 * length (b' # bs) \<le> 70"
    using 3 by simp
  have "DecodeVarint_loop (pre @ (b # b' # bs) @ rest) (length pre) r s =
        DecodeVarint_loop (pre @ (b # b' # bs) @ rest) (length pre + 1) ?r (s + 7)"
    using cont s \<open>r < 2 ^ s\<close> by (simp add: loop_more or_push_bit_add)
  also have "\<dots> =
        DecodeVarint_loop ((pre @ [b]) @ (b' # bs) @ rest) (length (pre @ [b])) ?r (s + 7)"
    by simp
  also have "\<dots> = Inr ((?r + 2 ^ (s + 7) * varint_value (b' # bs)) mod 2 ^ 64,
                      length (pre @ [b]) + length (b' # bs))"
    using "3.IH" [OF wt r' len] .
  finally show ?case
    by (simp add: power_add algebra_simps)
qed

lemma DecodeVarint_complete:
  assumes "complete_varint vs"
  shows "DecodeVarint (pre @ vs @ rest) (length pre) =
           Inr (declared_length vs, length pre + length vs)"
  using assms loop_decodes [of vs 0 0 pre rest]
  by (simp add: complete_varint_def DecodeVarint_def declared_length_def)

subsection \<open>Slicing a frame\<close>

lemma find_first: "c \<notin> set pre \<Longrightarrow> find (pre @ c # xs) c = Some (length pre)"
  by (induction pre) auto

lemma well_terminated_nonempty: "well_terminated vs \<Longrightarrow> vs \<noteq> []"
  by (cases vs) auto

lemma slice_frame_after:
  assumes "0 \<notin> set pre" and "complete_varint vs"
  shows "slice_frame (pre @ 0 # vs @ tail) =
           Inr (take (declared_length vs) tail, drop (declared_length vs) tail)"
proof -
  let ?buf = "pre @ 0 # vs @ tail"
  have f: "find ?buf 0 = Some (length pre)"
    using assms(1) by (rule find_first)
  have "vs \<noteq> []"
    using assms(2) by (auto simp: complete_varint_def dest: well_terminated_nonempty)
  then have guard: "length pre + 1 < length ?buf"
    by (cases vs) auto
  have "DecodeVarint ((pre @ [0]) @ vs @ tail) (length (pre @ [0])) =
          Inr (declared_length vs, length (pre @ [0]) + length vs)"
    using assms(2) by (rule DecodeVarint_complete)
  then have d: "DecodeVarint ?buf (length pre + 1) =
          Inr (declared_length vs, length pre + 1 + length vs)"
    by simp
  show ?thesis
    unfolding slice_frame_def f using guard d by (simp add: Let_def)
qed

lemma slice_frame_head:
  assumes "complete_varint vs"
  shows "slice_frame (0 # vs @ tail) =
           Inr (take (declared_length vs) tail, drop (declared_length vs) tail)"
  using slice_frame_after [of "[]" vs tail] assms by simp

subsection \<open>One turn of the inner loop\<close>

lemma drain_raise:
  "parse_message P (message_buffer s) = Inl e \<Longrightarrow> drain P s = (Some e, s)"
  by (subst drain.simps) simp

lemma drain_none:
  "parse_message P (message_buffer s) = Inr (None, r, c) \<Longrightarrow>
   drain P s = (None, s\<lparr>message_buffer := r\<rparr>)"
  by (subst drain.simps) simp

lemma drain_reject:
  "parse_message P (message_buffer s) = Inr (Some m, r, c) \<Longrightarrow> \<not> recognized m \<Longrightarrow>
   drain P s = (None, s\<lparr>message_buffer := r,
                          corrupted_messages := corrupted_messages s + 1\<rparr>)"
  by (subst drain.simps) simp

lemma drain_dispatch:
  "parse_message P (message_buffer s) = Inr (Some m, r, c) \<Longrightarrow> recognized m \<Longrightarrow>
   drain P s = drain P (dispatch m c (s\<lparr>message_buffer := r\<rparr>))"
  by (subst drain.simps) simp

lemma parse_message_sliced:
  "slice_frame buf = Inr (md, r) \<Longrightarrow>
   parse_message P buf =
     Inr (if 1 < length md then map_option message_dict (P md) else None, r, length md)"
  by (simp add: parse_message_def)

lemma parse_message_raises:
  "slice_frame buf = Inl e \<Longrightarrow> parse_message P buf = Inl e"
  by (simp add: parse_message_def)

lemma drain_sliced_raise:
  assumes "slice_frame (message_buffer s) = Inl e"
  shows "drain P s = (Some e, s)"
  using parse_message_raises [OF assms, of P] by (rule drain_raise)

lemma drain_sliced_none:
  assumes "slice_frame (message_buffer s) = Inr (md, r)"
    and "\<not> 1 < length md \<or> P md = None"
  shows "drain P s = (None, s\<lparr>message_buffer := r\<rparr>)"
proof -
  have "parse_message P (message_buffer s) = Inr (None, r, length md)"
    using parse_message_sliced [OF assms(1), of P] assms(2) by auto
  then show ?thesis by (rule drain_none)
qed

lemma drain_sliced_reject:
  assumes "slice_frame (message_buffer s) = Inr (md, r)"
    and "1 < length md" and "P md = Some v" and "\<not> recognized (message_dict v)"
  shows "drain P s = (None, s\<lparr>message_buffer := r,
                              corrupted_messages := corrupted_messages s + 1\<rparr>)"
proof -
  have "parse_message P (message_buffer s) = Inr (Some (message_dict v), r, length md)"
    using parse_message_sliced [OF assms(1), of P] assms(2,3) by simp
  then show ?thesis using assms(4) by (rule drain_reject)
qed

lemma drain_sliced_dispatch:
  assumes "slice_frame (message_buffer s) = Inr (md, r)"
    and "1 < length md" and "P md = Some v" and "recognized (message_dict v)"
  shows "drain P s = drain P (dispatch (message_dict v) (length md) (s\<lparr>message_buffer := r\<rparr>))"
proof -
  have "parse_message P (message_buffer s) = Inr (Some (message_dict v), r, length md)"
    using parse_message_sliced [OF assms(1), of P] assms(2,3) by simp
  then show ?thesis using assms(4) by (rule drain_dispatch)
qed

lemma dispatch_fields [simp]:
  "callback (dispatch m c s) = callback s"
  "bytes_received (dispatch m c s) = bytes_received s + c"
  "corrupted_messages (dispatch m c s) = corrupted_messages s"
  "message_buffer (dispatch m c s) = message_buffer s"
  "calls (dispatch m c s) = (if callback s then calls s @ [(m, 0 < length (message_buffer s))] else calls s)"
  by (simp_all add: dispatch_def Let_def)

lemma drain_cases [case_names raise none reject dispatch]:
  assumes "\<And>e. slice_frame (message_buffer s) = Inl e \<Longrightarrow> drain P s = (Some e, s) \<Longrightarrow> Q"
    and "\<And>md r. slice_frame (message_buffer s) = Inr (md, r) \<Longrightarrow>
           \<not> 1 < length md \<or> P md = None \<Longrightarrow>
           drain P s = (None, s\<lparr>message_buffer := r\<rparr>) \<Longrightarrow> Q"
    and "\<And>md r v. slice_frame (message_buffer s) = Inr (md, r) \<Longrightarrow> 1 < length md \<Longrightarrow>
           P md = Some v \<Longrightarrow> \<not> recognized (message_dict v) \<Longrightarrow>
           drain P s = (None, s\<lparr>message_buffer := r,
                                  corrupted_messages := corrupted_messages s + 1\<rparr>) \<Longrightarrow> Q"
    and "\<And>md r v. slice_frame (message_buffer s) = Inr (md, r) \<Longrightarrow> 1 < length md \<Longrightarrow>
           P md = Some v \<Longrightarrow> recognized (message_dict v) \<Longrightarrow>
           parse_message P (message_buffer s) = Inr (Some (message_dict v), r, length md) \<Longrightarrow>
           drain P s = drain P (dispatch (message_dict v) (length md) (s\<lparr>message_buffer := r\<rparr>)) \<Longrightarrow> Q"
  shows Q
proof (cases "slice_frame (message_buffer s)")
  case (Inl e)
  then show ?thesis using assms(1) drain_sliced_raise by blast
next
  case (Inr p)
  obtain md r where p: "p = (md, r)" by (cases p)
  note sl = Inr [unfolded p]
  show ?thesis
  proof (cases "1 < length md \<and> P md \<noteq> None")
    case False
    then have "\<not> 1 < length md \<or> P md = None" by auto
    then show ?thesis using assms(2) [OF sl] drain_sliced_none [where P = P, OF sl] by blast
  next
    case True
    then obtain v where v: "P md = Some v" and len: "1 < length md" by auto
    show ?thesis
    proof (cases "recognized (message_dict v)")
      case False
      then show ?thesis
        using assms(3) [OF sl len v] drain_sliced_reject [where P = P, OF sl len v] by blast
    next
      case True
      have "parse_message P (message_buffer s) = Inr (Some (message_dict v), r, length md)"
        using parse_message_sliced [OF sl, of P] len v by simp
      then show ?thesis
        using assms(4) [OF sl len v True] drain_sliced_dispatch [where P = P, OF sl len v True] by blast
    qed
  qed
qed

lemma dispatched_unfold:
  "slice_frame buf = Inl e \<Longrightarrow> dispatched P buf = []"
  "slice_frame buf = Inr (md, r) \<Longrightarrow> \<not> 1 < length md \<or> P md = None \<Longrightarrow> dispatched P buf = []"
  "slice_frame buf = Inr (md, r) \<Longrightarrow> 1 < length md \<Longrightarrow> P md = Some v \<Longrightarrow>
     \<not> recognized (message_dict v) \<Longrightarrow> dispatched P buf = []"
  "slice_frame buf = Inr (md, r) \<Longrightarrow> 1 < length md \<Longrightarrow> P md = Some v \<Longrightarrow>
     recognized (message_dict v) \<Longrightarrow> dispatched P buf = md # dispatched P r"
  by (subst dispatched.simps, auto)+

subsection \<open>Invariants of the inner loop\<close>

lemma drain_callback: "callback (snd (drain P s)) = callback s"
proof (induction P s rule: drain.induct)
  case (1 P s)
  show ?case
  proof (cases rule: drain_cases [of s P])
    case (dispatch md r v)
    then show ?thesis using 1 [OF dispatch(5) refl refl refl refl] by simp
  qed simp_all
qed

lemma drain_bytes_received:
  "bytes_received (snd (drain P s)) =
     bytes_received s + sum_list (map length (dispatched P (message_buffer s)))"
proof (induction P s rule: drain.induct)
  case (1 P s)
  show ?case
  proof (cases rule: drain_cases [of s P])
    case (dispatch md r v)
    then show ?thesis
      using 1 [OF dispatch(5) refl refl refl refl] dispatched_unfold(4) [where P = P, OF dispatch(1-4)] by simp
  qed (simp_all add: dispatched_unfold)
qed

lemma drain_calls:
  "callback s \<Longrightarrow>
   map (\<lambda>c. Some (fst c)) (calls (snd (drain P s))) =
     map (\<lambda>c. Some (fst c)) (calls s) @
     map (\<lambda>p. map_option message_dict (P p)) (dispatched P (message_buffer s))"
proof (induction P s rule: drain.induct)
  case (1 P s)
  show ?case
  proof (cases rule: drain_cases [of s P])
    case (dispatch md r v)
    then show ?thesis
      using 1(1) [OF dispatch(5) refl refl refl refl] dispatch(4) 1(2) dispatched_unfold(4) [where P = P, OF dispatch(1-4)]
      by simp
  qed (simp_all add: dispatched_unfold)
qed

lemma drain_corrupted_mono: "corrupted_messages s \<le> corrupted_messages (snd (drain P s))"
proof (induction P s rule: drain.induct)
  case (1 P s)
  show ?case
  proof (cases rule: drain_cases [of s P])
    case (dispatch md r v)
    then show ?thesis using 1 [OF dispatch(5) refl refl refl refl] by simp
  qed simp_all
qed

lemma run_loop_bytes_received:
  "bytes_received (snd (run_loop P reads s)) =
     bytes_received s + sum_list (map length (run_dispatched P reads s))"
proof (induction P reads s rule: run_loop.induct)
  case (3 P bs rs s)
  let ?s = "s\<lparr>message_buffer := message_buffer s @ bs\<rparr>"
  obtain e s' where d: "drain P ?s = (e, s')" by (cases "drain P ?s")
  have b: "bytes_received s' =
             bytes_received s + sum_list (map length (dispatched P (message_buffer s @ bs)))"
    using drain_bytes_received [of P ?s] d by simp
  show ?case
  proof (cases e)
    case None
    then show ?thesis using 3 [OF d [symmetric, unfolded None]] d b by simp
  next
    case (Some x)
    then show ?thesis using d b by simp
  qed
qed simp_all

subsection \<open>Invariants of the outer loop\<close>

lemma run_loop_Data:
  "drain P (s\<lparr>message_buffer := message_buffer s @ bs\<rparr>) = (None, s') \<Longrightarrow>
   run_loop P (Data bs # rs) s = run_loop P rs s'"
  "drain P (s\<lparr>message_buffer := message_buffer s @ bs\<rparr>) = (Some e, s') \<Longrightarrow>
   run_loop P (Data bs # rs) s = (Raised e, s')"
  by simp_all

lemma run_loop_callback: "callback (snd (run_loop P reads s)) = callback s"
proof (induction P reads s rule: run_loop.induct)
  case (3 P bs rs s)
  let ?s = "s\<lparr>message_buffer := message_buffer s @ bs\<rparr>"
  obtain e s' where d: "drain P ?s = (e, s')" by (cases "drain P ?s")
  have c: "callback s' = callback s"
    using drain_callback [of P ?s] d by simp
  show ?case
  proof (cases e)
    case None
    then show ?thesis using 3 [OF d [symmetric] None] d c by simp
  next
    case (Some x)
    then show ?thesis using d c by simp
  qed
qed simp_all

lemma run_loop_calls:
  "callback s \<Longrightarrow>
   map (\<lambda>c. Some (fst c)) (calls (snd (run_loop P reads s))) =
     map (\<lambda>c. Some (fst c)) (calls s) @
     map (\<lambda>p. map_option message_dict (P p)) (run_dispatched P reads s)"
proof (induction P reads s rule: run_loop.induct)
  case (3 P bs rs s)
  let ?s = "s\<lparr>message_buffer := message_buffer s @ bs\<rparr>"
  obtain e s' where d: "drain P ?s = (e, s')" by (cases "drain P ?s")
  have cb: "callback ?s" using 3(2) by simp
  have c: "map (\<lambda>c. Some (fst c)) (calls s') =
             map (\<lambda>c. Some (fst c)) (calls s) @
             map (\<lambda>p. map_option message_dict (P p)) (dispatched P (message_buffer s @ bs))"
    using drain_calls [OF cb, of P] d by simp
  have cb': "callback s'"
    using drain_callback [of P ?s] d cb by simp
  show ?case
  proof (cases e)
    case None
    then show ?thesis
      using 3(1) [OF d [symmetric] None cb'] d c by simp
  next
    case (Some x)
    then show ?thesis using d c by simp
  qed
qed simp_all

lemma run_loop_corrupted_mono:
  "corrupted_messages s \<le> corrupted_messages (snd (run_loop P reads s))"
proof (induction P reads s rule: run_loop.induct)
  case (3 P bs rs s)
  let ?s = "s\<lparr>message_buffer := message_buffer s @ bs\<rparr>"
  obtain e s' where d: "drain P ?s = (e, s')" by (cases "drain P ?s")
  have c: "corrupted_messages s \<le> corrupted_messages s'"
    using drain_corrupted_mono [of ?s P] d by simp
  show ?case
  proof (cases e)
    case None
    then show ?thesis using 3 [OF d [symmetric] None] d c by simp
  next
    case (Some x)
    then show ?thesis using d c by simp
  qed
qed simp_all

lemma run_loop_append:
  "run_loop P (rs @ rs') s =
     (case run_loop P rs s of (Reading, s') \<Rightarrow> run_loop P rs' s' | res \<Rightarrow> res)"
proof (induction P rs s rule: run_loop.induct)
  case (3 P bs rs s)
  let ?s = "s\<lparr>message_buffer := message_buffer s @ bs\<rparr>"
  obtain e s' where d: "drain P ?s = (e, s')" by (cases "drain P ?s")
  show ?case
  proof (cases e)
    case None
    then show ?thesis using 3 [OF d [symmetric] None] d by simp
  next
    case (Some x)
    then show ?thesis using d by simp
  qed
qed simp_all

lemma run_loop_prefix:
  obtains "run_loop P (rs @ rs') s = run_loop P rs s"
  | s' where "run_loop P rs s = (Reading, s')" and "run_loop P (rs @ rs') s = run_loop P rs' s'"
proof (cases "run_loop P rs s")
  case (Pair out s')
  show ?thesis
  proof (cases out)
    case Reading
    then show ?thesis using Pair that(2) run_loop_append [of P rs rs' s] by simp
  next
    case Stopped
    then show ?thesis using Pair that(1) run_loop_append [of P rs rs' s] by simp
  next
    case (Raised e)
    then show ?thesis using Pair that(1) run_loop_append [of P rs rs' s] by simp
  qed
qed

subsection \<open>Frames met by the loop\<close>

lemma find_none: "c \<notin> set buf \<Longrightarrow> find buf c = None"
  by (induction buf) auto

lemma slice_frame_no_sentinel: "0 \<notin> set buf \<Longrightarrow> slice_frame buf = Inr ([], buf)"
  by (simp add: slice_frame_def find_none)

lemma drain_no_sentinel:
  assumes "0 \<notin> set (message_buffer s)"
  shows "drain P s = (None, s)"
proof -
  have "slice_frame (message_buffer s) = Inr ([], message_buffer s)"
    using assms by (rule slice_frame_no_sentinel)
  then have "drain P s = (None, s\<lparr>message_buffer := message_buffer s\<rparr>)"
    by (rule drain_sliced_none) simp
  then show ?thesis by simp
qed

lemma dispatched_no_sentinel: "0 \<notin> set buf \<Longrightarrow> dispatched P buf = []"
  using dispatched_unfold(2) [of buf "[]" buf P] by (simp add: slice_frame_no_sentinel)

lemma slice_frame_framed:
  assumes "0 \<notin> set pre" and "complete_varint vs" and "declared_length vs = length p"
  shows "slice_frame (pre @ 0 # vs @ p @ rest) = Inr (p, rest)"
  using slice_frame_after [OF assms(1,2), of "p @ rest"] assms(3) by simp

lemma drain_framed_dispatch:
  assumes "0 \<notin> set pre" and "complete_varint vs" and "declared_length vs = length p"
    and "message_buffer s = pre @ 0 # vs @ p @ rest"
    and "1 < length p" and "P p = Some v" and "recognized (message_dict v)"
  shows "drain P s = drain P (dispatch (message_dict v) (length p) (s\<lparr>message_buffer := rest\<rparr>))"
proof -
  have "slice_frame (message_buffer s) = Inr (p, rest)"
    unfolding assms(4) using assms(1-3) by (rule slice_frame_framed)
  then show ?thesis
    using assms(5-7) by (rule drain_sliced_dispatch [where P = P])
qed

lemma drain_framed_reject:
  assumes "0 \<notin> set pre" and "complete_varint vs" and "declared_length vs = length p"
    and "message_buffer s = pre @ 0 # vs @ p @ rest"
    and "1 < length p" and "P p = Some v" and "\<not> recognized (message_dict v)"
  shows "drain P s = (None, s\<lparr>message_buffer := rest,
                              corrupted_messages := corrupted_messages s + 1\<rparr>)"
proof -
  have "slice_frame (message_buffer s) = Inr (p, rest)"
    unfolding assms(4) using assms(1-3) by (rule slice_frame_framed)
  then show ?thesis
    using assms(5-7) by (rule drain_sliced_reject [where P = P])
qed

lemma dispatched_framed:
  assumes "0 \<notin> set pre" and "complete_varint vs" and "declared_length vs = length p"
    and "1 < length p" and "P p = Some v" and "recognized (message_dict v)"
  shows "dispatched P (pre @ 0 # vs @ p @ rest) = p # dispatched P rest"
proof -
  have "slice_frame (pre @ 0 # vs @ p @ rest) = Inr (p, rest)"
    using assms(1-3) by (rule slice_frame_framed)
  then show ?thesis
    using assms(4-6) by (rule dispatched_unfold(4) [where P = P])
qed

lemma dispatched_framed_reject:
  assumes "0 \<notin> set pre" and "complete_varint vs" and "declared_length vs = length p"
    and "1 < length p" and "P p = Some v" and "\<not> recognized (message_dict v)"
  shows "dispatched P (pre @ 0 # vs @ p @ rest) = []"
proof -
  have "slice_frame (pre @ 0 # vs @ p @ rest) = Inr (p, rest)"
    using assms(1-3) by (rule slice_frame_framed)
  then show ?thesis
    using assms(4-6) by (rule dispatched_unfold(3) [where P = P])
qed

text \<open>One read that brings exactly one frame: the frame is dispatched or rejected.\<close>

lemma drain_one_frame_dispatched:
  assumes "complete_varint vs" and "declared_length vs = length p"
    and "message_buffer s = 0 # vs @ p"
    and "1 < length p" and "P p = Some v" and "recognized (message_dict v)"
  shows "drain P s = (None, dispatch (message_dict v) (length p) (s\<lparr>message_buffer := []\<rparr>))"
proof -
  have "drain P s = drain P (dispatch (message_dict v) (length p) (s\<lparr>message_buffer := []\<rparr>))"
    using assms drain_framed_dispatch [of "[]" vs p s "[]" P v] by simp
  also have "\<dots> = (None, dispatch (message_dict v) (length p) (s\<lparr>message_buffer := []\<rparr>))"
    by (rule drain_no_sentinel) simp
  finally show ?thesis .
qed

lemma dispatched_one_frame:
  assumes "complete_varint vs" and "declared_length vs = length p"
    and "1 < length p" and "P p = Some v" and "recognized (message_dict v)"
  shows "dispatched P (0 # vs @ p) = [p]"
  using assms dispatched_framed [of "[]" vs p P v "[]"]
  by (simp add: dispatched_no_sentinel)

lemma drain_one_frame_rejected:
  assumes "complete_varint vs" and "declared_length vs = length p"
    and "message_buffer s = 0 # vs @ p"
    and "1 < length p" and "P p = Some v" and "\<not> recognized (message_dict v)"
  shows "drain P s = (None, s\<lparr>message_buffer := [],
                              corrupted_messages := corrupted_messages s + 1\<rparr>)"
  using assms drain_framed_reject [of "[]" vs p s "[]" P v] by simp

lemma dispatched_one_frame_rejected:
  assumes "complete_varint vs" and "declared_length vs = length p"
    and "1 < length p" and "P p = Some v" and "\<not> recognized (message_dict v)"
  shows "dispatched P (0 # vs @ p) = []"
  using assms dispatched_framed_reject [of "[]" vs p P v "[]"] by simp

subsection \<open>What the callback log can hold\<close>

lemma dispatch_calls_inv:
  assumes "Q m"
  obtains x where "calls (dispatch m c s) = calls s @ x" and "\<forall>e\<in>set x. Q (fst e)"
proof (cases "callback s")
  case True
  then have "calls (dispatch m c s) = calls s @ [(m, 0 < length (message_buffer s))]"
    by simp
  moreover have "\<forall>e\<in>set [(m, 0 < length (message_buffer s))]. Q (fst e)"
    using assms by simp
  ultimately show ?thesis by (rule that)
next
  case False
  then have "calls (dispatch m c s) = calls s @ []"
    by simp
  moreover have "\<forall>e\<in>set ([] :: ('a dict \<times> bool) list). Q (fst e)"
    by simp
  ultimately show ?thesis by (rule that)
qed

lemma drain_calls_inv:
  assumes Q: "\<And>p v. P p = Some v \<Longrightarrow> recognized (message_dict v) \<Longrightarrow> Q (message_dict v)"
  shows "\<exists>new. calls (snd (drain P s)) = calls s @ new \<and> (\<forall>e\<in>set new. Q (fst e))"
proof (induction P\<equiv>P s rule: drain.induct)
  case (1 s)
  show ?case
  proof (cases rule: drain_cases [of s P])
    case (raise e)
    then have "calls (snd (drain P s)) = calls s @ []" by simp
    then show ?thesis by (intro exI [of _ "[]"]) simp
  next
    case (none md r)
    then have "calls (snd (drain P s)) = calls s @ []" by simp
    then show ?thesis by (intro exI [of _ "[]"]) simp
  next
    case (reject md r v)
    then have "calls (snd (drain P s)) = calls s @ []" by simp
    then show ?thesis by (intro exI [of _ "[]"]) simp
  next
    case (dispatch md r v)
    let ?s' = "dispatch (message_dict v) (length md) (s\<lparr>message_buffer := r\<rparr>)"
    have "Q (message_dict v)"
      using dispatch(3,4) by (rule Q)
    then obtain x where x: "calls ?s' = calls (s\<lparr>message_buffer := r\<rparr>) @ x"
      and qx: "\<forall>e\<in>set x. Q (fst e)"
      by (rule dispatch_calls_inv)
    have "\<not> \<not> recognized (message_dict v)"
      using dispatch(4) by simp
    from 1 [OF dispatch(5) refl refl refl refl this]
    obtain new where new: "calls (snd (drain P ?s')) = calls ?s' @ new"
      and qn: "\<forall>e\<in>set new. Q (fst e)"
      by blast
    have "calls (snd (drain P s)) = calls s @ (x @ new)"
      unfolding dispatch(6) new x by simp
    moreover have "\<forall>e\<in>set (x @ new). Q (fst e)"
      using qx qn by auto
    ultimately show ?thesis by blast
  qed
qed

lemma run_loop_calls_inv:
  assumes Q: "\<And>p v. P p = Some v \<Longrightarrow> recognized (message_dict v) \<Longrightarrow> Q (message_dict v)"
  shows "\<forall>e\<in>set (calls s). Q (fst e) \<Longrightarrow>
         \<forall>e\<in>set (calls (snd (run_loop P reads s))). Q (fst e)"
proof (induction P\<equiv>P reads s rule: run_loop.induct)
  case (3 bs rs s)
  let ?s = "s\<lparr>message_buffer := message_buffer s @ bs\<rparr>"
  obtain e s' where d: "drain P ?s = (e, s')" by (cases "drain P ?s")
  obtain new where "calls (snd (drain P ?s)) = calls ?s @ new" and "\<forall>e\<in>set new. Q (fst e)"
    using drain_calls_inv [of P Q ?s] Q by blast
  then have c: "\<forall>e\<in>set (calls s'). Q (fst e)"
    using 3(2) d by auto
  show ?case
  proof (cases e)
    case None
    have "run_loop P (Data bs # rs) s = run_loop P rs s'"
      using d None by simp
    then show ?thesis
      using 3(1) [OF d [symmetric] None c] by (simp only:)
  next
    case (Some x)
    have "run_loop P (Data bs # rs) s = (Raised x, s')"
      using d Some by simp
    then show ?thesis using c by (simp only: snd_conv)
  qed
qed simp_all

subsection \<open>Read cycles that bring exactly one frame\<close>

lemma cycle_one_frame_dispatched:
  assumes "message_buffer s = []"
    and "complete_varint vs" and "declared_length vs = length p"
    and "1 < length p" and "P p = Some v" and "recognized (message_dict v)"
  shows "run_loop P (Data (0 # vs @ p) # rs) s =
           run_loop P rs (dispatch (message_dict v) (length p) (s\<lparr>message_buffer := []\<rparr>))"
    and "run_dispatched P (Data (0 # vs @ p) # rs) s =
           p # run_dispatched P rs (dispatch (message_dict v) (length p) (s\<lparr>message_buffer := []\<rparr>))"
proof -
  let ?s = "s\<lparr>message_buffer := message_buffer s @ 0 # vs @ p\<rparr>"
  have d: "drain P ?s = (None, dispatch (message_dict v) (length p) (?s\<lparr>message_buffer := []\<rparr>))"
    using assms by (intro drain_one_frame_dispatched [where vs = vs]) simp_all
  have g: "dispatched P (message_buffer ?s) = [p]"
    using assms dispatched_one_frame [of vs p P v] by simp
  show "run_loop P (Data (0 # vs @ p) # rs) s =
           run_loop P rs (dispatch (message_dict v) (length p) (s\<lparr>message_buffer := []\<rparr>))"
    using d by simp
  show "run_dispatched P (Data (0 # vs @ p) # rs) s =
           p # run_dispatched P rs (dispatch (message_dict v) (length p) (s\<lparr>message_buffer := []\<rparr>))"
    using d g by (simp add: Let_def)
qed

lemma cycle_one_frame_rejected:
  assumes "message_buffer s = []"
    and "complete_varint vs" and "declared_length vs = length p"
    and "1 < length p" and "P p = Some v" and "\<not> recognized (message_dict v)"
  shows "run_loop P (Data (0 # vs @ p) # rs) s =
           run_loop P rs (s\<lparr>message_buffer := [],
                             corrupted_messages := corrupted_messages s + 1\<rparr>)"
    and "run_dispatched P (Data (0 # vs @ p) # rs) s =
           run_dispatched P rs (s\<lparr>message_buffer := [],
                                   corrupted_messages := corrupted_messages s + 1\<rparr>)"
proof -
  let ?s = "s\<lparr>message_buffer := message_buffer s @ 0 # vs @ p\<rparr>"
  have d: "drain P ?s = (None, ?s\<lparr>message_buffer := [],
                                    corrupted_messages := corrupted_messages ?s + 1\<rparr>)"
    using assms by (intro drain_one_frame_rejected [where vs = vs and v = v]) simp_all
  have g: "dispatched P (message_buffer ?s) = []"
    using assms dispatched_one_frame_rejected [of vs p P v] by simp
  show "run_loop P (Data (0 # vs @ p) # rs) s =
           run_loop P rs (s\<lparr>message_buffer := [],
                             corrupted_messages := corrupted_messages s + 1\<rparr>)"
    using d by simp
  show "run_dispatched P (Data (0 # vs @ p) # rs) s =
           run_dispatched P rs (s\<lparr>message_buffer := [],
                                   corrupted_messages := corrupted_messages s + 1\<rparr>)"
    using d g by (simp add: Let_def)
qed

lemma run_init: "run P reads (init cb) = run_loop P reads (init cb)"
  by (simp add: run_def init_def)

subsection \<open>Worked values\<close>

lemma speed_dict:
  "message_dict speed_message = [(''name'', PyStr ''speed''), (''value'', PyFloat 42)]"
  by (simp add: message_dict_def speed_message_def translated_dict_def)

lemma can_dict:
  "message_dict can_message =
     [(''bus'', PyInt 1), (''id'', PyInt 256), (''data'', PyStr ''0xdeadbeef'')]"
  by (simp add: message_dict_def can_message_def raw_dict_def format_0x_def hex_nat.simps
      hex_digit_def)

lemma bare_dict: "message_dict bare_message = [(''name'', PyStr ''door'')]"
  by (simp add: message_dict_def bare_message_def translated_dict_def)

lemma speed_recognized: "recognized (message_dict speed_message)"
  by (simp add: speed_dict recognized_def contains_def)

lemma can_recognized: "recognized (message_dict can_message)"
  by (simp add: can_dict recognized_def contains_def)

lemma bare_not_recognized: "\<not> recognized (message_dict bare_message)"
  by (simp add: bare_dict recognized_def contains_def)

lemma example_parser_values:
  "example_parser [1, 1] = Some speed_message"
  "example_parser [2, 2, 2] = Some can_message"
  "example_parser [3, 3] = Some bare_message"
  "example_parser [9, 9] = None"
  by (simp_all add: example_parser_def)

lemma one_byte_varint:
  "complete_varint [2]" "declared_length [2] = 2"
  "complete_varint [3]" "declared_length [3] = 3"
  "complete_varint [1]" "declared_length [1] = 1"
  "complete_varint [0]" "declared_length [0] = 0"
  by (simp_all add: complete_varint_def declared_length_def)

lemma two_byte_varint:
  "complete_varint [0x85, 0x01]" "declared_length [0x85, 0x01] = 133"
  by (simp_all add: complete_varint_def declared_length_def)

subsection \<open>A worked run\<close>

lemma three_reads_run:
  "run_loop example_parser three_reads fresh =
     (Reading,
      fresh\<lparr>bytes_received := 5, corrupted_messages := 1, message_buffer := [],
        calls := [([(''name'', PyStr ''speed''), (''value'', PyFloat 42)], False),
                  ([(''bus'', PyInt 1), (''id'', PyInt 256), (''data'', PyStr ''0xdeadbeef'')],
                   False)]\<rparr>)"
  and three_reads_dispatched:
  "run_dispatched example_parser three_reads fresh = [[1, 1], [2, 2, 2]]"
proof -
  let ?s1 = "dispatch (message_dict speed_message) (length [1, 1 :: byte])
               (fresh\<lparr>message_buffer := []\<rparr>)"
  let ?s2 = "?s1\<lparr>message_buffer := [], corrupted_messages := corrupted_messages ?s1 + 1\<rparr>"
  let ?s3 = "dispatch (message_dict can_message) (length [2, 2, 2 :: byte])
               (?s2\<lparr>message_buffer := []\<rparr>)"
  have e: "message_buffer fresh = []" "message_buffer ?s1 = []" "message_buffer ?s2 = []"
    by (simp_all add: fresh_def init_def)
  have l: "declared_length [2] = length [1, 1 :: byte]" "1 < length [1, 1 :: byte]"
    "declared_length [2] = length [3, 3 :: byte]" "1 < length [3, 3 :: byte]"
    "declared_length [3] = length [2, 2, 2 :: byte]" "1 < length [2, 2, 2 :: byte]"
    by (simp_all add: one_byte_varint)
  have r1: "run_loop example_parser (Data [0, 2, 1, 1] # rs) fresh = run_loop example_parser rs ?s1"
    and g1: "run_dispatched example_parser (Data [0, 2, 1, 1] # rs) fresh =
             [1, 1] # run_dispatched example_parser rs ?s1" for rs
    using cycle_one_frame_dispatched [of fresh "[2]" "[1, 1]" example_parser speed_message rs,
      OF e(1) one_byte_varint(1) l(1,2) example_parser_values(1) speed_recognized]
    by simp_all
  have r2: "run_loop example_parser (Data [0, 2, 3, 3] # rs) ?s1 = run_loop example_parser rs ?s2"
    and g2: "run_dispatched example_parser (Data [0, 2, 3, 3] # rs) ?s1 =
             run_dispatched example_parser rs ?s2" for rs
    using cycle_one_frame_rejected [of ?s1 "[2]" "[3, 3]" example_parser bare_message rs,
      OF e(2) one_byte_varint(1) l(3,4) example_parser_values(3) bare_not_recognized]
    by simp_all
  have r3: "run_loop example_parser (Data [0, 3, 2, 2, 2] # rs) ?s2 = run_loop example_parser rs ?s3"
    and g3: "run_dispatched example_parser (Data [0, 3, 2, 2, 2] # rs) ?s2 =
             [2, 2, 2] # run_dispatched example_parser rs ?s3" for rs
    using cycle_one_frame_dispatched [of ?s2 "[3]" "[2, 2, 2]" example_parser can_message rs,
      OF e(3) one_byte_varint(3) l(5,6) example_parser_values(2) can_recognized]
    by simp_all
  have "run_loop example_parser three_reads fresh = (Reading, ?s3)"
    unfolding three_reads_def r1 r2 r3 by simp
  then show "run_loop example_parser three_reads fresh =
     (Reading,
      fresh\<lparr>bytes_received := 5, corrupted_messages := 1, message_buffer := [],
        calls := [([(''name'', PyStr ''speed''), (''value'', PyFloat 42)], False),
                  ([(''bus'', PyInt 1), (''id'', PyInt 256), (''data'', PyStr ''0xdeadbeef'')],
                   False)]\<rparr>)"
    by (simp add: dispatch_def Let_def fresh_def init_def speed_dict can_dict)
  show "run_dispatched example_parser three_reads fresh = [[1, 1], [2, 2, 2]]"
    unfolding three_reads_def g1 g2 g3 by simp
qed

text \<open>
  Two runs in which the buffer is not free of sentinel bytes when two good frames arrive:
  after a frame with a one-byte payload followed by a good frame, and after a lone
  sentinel byte.
\<close>

lemma leftover_frame_first_read:
  "run_loop example_parser (Data [0, 1, 7, 0, 2, 1, 1] # rs) fresh =
     run_loop example_parser rs (fresh\<lparr>message_buffer := [0, 2, 1, 1]\<rparr>)"
proof -
  let ?s = "fresh\<lparr>message_buffer := message_buffer fresh @ [0, 1, 7, 0, 2, 1, 1]\<rparr>"
  have "slice_frame (message_buffer ?s) = Inr ([7], [0, 2, 1, 1])"
    using slice_frame_framed [of "[]" "[1]" "[7]" "[0, 2, 1, 1]"]
    by (simp add: one_byte_varint fresh_def init_def)
  then have "drain example_parser ?s = (None, ?s\<lparr>message_buffer := [0, 2, 1, 1]\<rparr>)"
    by (rule drain_sliced_none) simp
  then show ?thesis by simp
qed

lemma leftover_frame_second_read:
  "run_loop example_parser [Data [0, 2, 1, 1, 0, 3, 2, 2, 2]]
     (fresh\<lparr>message_buffer := [0, 2, 1, 1]\<rparr>) =
   (Reading,
    fresh\<lparr>bytes_received := 7, message_buffer := [],
      calls := [([(''name'', PyStr ''speed''), (''value'', PyFloat 42)], True),
                ([(''name'', PyStr ''speed''), (''value'', PyFloat 42)], True),
                ([(''bus'', PyInt 1), (''id'', PyInt 256), (''data'', PyStr ''0xdeadbeef'')],
                 False)]\<rparr>)"
proof -
  let ?s0 = "fresh\<lparr>message_buffer := [0, 2, 1, 1, 0, 2, 1, 1, 0, 3, 2, 2, 2]\<rparr>"
  let ?s1 = "dispatch (message_dict speed_message) (length [1, 1 :: byte])
               (?s0\<lparr>message_buffer := [0, 2, 1, 1, 0, 3, 2, 2, 2]\<rparr>)"
  let ?s2 = "dispatch (message_dict speed_message) (length [1, 1 :: byte])
               (?s1\<lparr>message_buffer := [0, 3, 2, 2, 2]\<rparr>)"
  let ?s3 = "dispatch (message_dict can_message) (length [2, 2, 2 :: byte])
               (?s2\<lparr>message_buffer := []\<rparr>)"
  have "drain example_parser ?s0 = drain example_parser ?s1"
    by (rule drain_framed_dispatch [where pre = "[]" and vs = "[2]"])
       (simp_all add: one_byte_varint example_parser_values speed_recognized)
  also have "\<dots> = drain example_parser ?s2"
    by (rule drain_framed_dispatch [where pre = "[]" and vs = "[2]"])
       (simp_all add: one_byte_varint example_parser_values speed_recognized)
  also have "\<dots> = (None, ?s3)"
    by (rule drain_one_frame_dispatched [where vs = "[3]"])
       (simp_all add: one_byte_varint example_parser_values can_recognized)
  finally have "drain example_parser ?s0 = (None, ?s3)" .
  moreover have "?s3 = fresh\<lparr>bytes_received := 7, message_buffer := [],
      calls := [([(''name'', PyStr ''speed''), (''value'', PyFloat 42)], True),
                ([(''name'', PyStr ''speed''), (''value'', PyFloat 42)], True),
                ([(''bus'', PyInt 1), (''id'', PyInt 256), (''data'', PyStr ''0xdeadbeef'')],
                 False)]\<rparr>"
    by (simp add: dispatch_def Let_def fresh_def init_def speed_dict can_dict)
  ultimately show ?thesis by simp
qed

lemma leftover_sentinel_run:
  "run_loop example_parser [Data [0], Data [0, 2, 1, 1, 0, 3, 2, 2, 2]] fresh =
     (Reading, fresh\<lparr>message_buffer := [2, 1, 1, 0, 3, 2, 2, 2]\<rparr>)"
proof -
  let ?s = "fresh\<lparr>message_buffer := message_buffer fresh @ [0]\<rparr>"
  let ?t = "fresh\<lparr>message_buffer := [0]\<rparr>"
  let ?u = "?t\<lparr>message_buffer := message_buffer ?t @ [0, 2, 1, 1, 0, 3, 2, 2, 2]\<rparr>"
  have "slice_frame (message_buffer ?s) = Inr ([], [0])"
    by (simp add: slice_frame_def fresh_def init_def)
  then have "drain example_parser ?s = (None, ?s\<lparr>message_buffer := [0]\<rparr>)"
    by (rule drain_sliced_none) simp
  then have first: "run_loop example_parser (Data [0] # rs) fresh = run_loop example_parser rs ?t"
    for rs by simp
  have "slice_frame (message_buffer ?u) = Inr ([], [2, 1, 1, 0, 3, 2, 2, 2])"
    using slice_frame_framed [of "[]" "[0]" "[]" "[2, 1, 1, 0, 3, 2, 2, 2]"]
    by (simp add: one_byte_varint)
  then have "drain example_parser ?u = (None, ?u\<lparr>message_buffer := [2, 1, 1, 0, 3, 2, 2, 2]\<rparr>)"
    by (rule drain_sliced_none) simp
  then have "run_loop example_parser [Data [0, 2, 1, 1, 0, 3, 2, 2, 2]] ?t =
      (Reading, fresh\<lparr>message_buffer := [2, 1, 1, 0, 3, 2, 2, 2]\<rparr>)"
    by simp
  then show ?thesis by (simp only: first)
qed

section \<open>The claims\<close>

subsection \<open>C1: a frame whose payload is not all there\<close>

text \<open>
  C1 says that when fewer payload bytes are present than the varint declares,
  \<open>_parse_message\<close> returns no message and leaves the buffer as it was. The buffer
  \<open>00 05 01 02\<close> holds a sentinel, the length 5 and two of the five payload bytes. The
  code slices what is there, hands the two bytes to the deserializer and returns the
  empty buffer as remainder: the bytes of the unfinished frame are gone.
\<close>

theorem C1_truncated_payload_consumed:
  "parse_message P [0, 5, 1, 2] = Inr (map_option message_dict (P [1, 2]), [], 2)"
  by (simp add: parse_message_def slice_frame_def DecodeVarint_def loop_steps)

subsection \<open>C2: a buffer that ends inside the varint\<close>

text \<open>
  C2 says that when the buffer ends before the last byte of the varint, frame extraction
  returns no message, raises nothing and leaves the buffer alone. The buffer \<open>00 80\<close>
  holds a sentinel and a varint byte with the continuation bit set. The guard of line 100
  passes, the varint reader indexes past the end of the buffer, and the IndexError leaves
  \<open>_parse_message\<close> and \<open>run\<close>.
\<close>

theorem C2_incomplete_varint_raises:
  "parse_message P [0, 0x80] = Inl IndexError \<and>
   run P [Data [0, 0x80]] (init cb) =
     (Raised IndexError, (init cb)\<lparr>message_buffer := [0, 0x80]\<rparr>)"
  by (simp add: run_def init_def drain_raise parse_message_def slice_frame_def
      DecodeVarint_def loop_steps)

subsection \<open>C3: a payload that fails to deserialize\<close>

text \<open>
  C3 says that a payload longer than one byte that fails to deserialize adds exactly one
  to \<open>corrupted_messages\<close>. It does not: with the payload \<open>09 09\<close>, which the example
  deserializer rejects, the counter is the same after the loop as before.
\<close>

theorem C3_counterexample:
  "slice_frame (message_buffer (fresh\<lparr>message_buffer := [0, 2, 9, 9]\<rparr>)) = Inr ([9, 9], []) \<and>
   example_parser [9, 9] = None \<and>
   corrupted_messages (snd (drain example_parser (fresh\<lparr>message_buffer := [0, 2, 9, 9]\<rparr>)))
     \<noteq> corrupted_messages (fresh\<lparr>message_buffer := [0, 2, 9, 9]\<rparr>) + 1"
proof -
  have a: "slice_frame (message_buffer (fresh\<lparr>message_buffer := [0, 2, 9, 9]\<rparr>)) = Inr ([9, 9], [])"
    by (simp add: slice_frame_def DecodeVarint_def loop_steps)
  have b: "example_parser [9, 9] = None"
    by (simp add: example_parser_def)
  show ?thesis
    using a b drain_sliced_none [where P = example_parser, OF a] by simp
qed

text \<open>
  C3 as amended: for every extracted payload longer than one byte that fails to
  deserialize, the inner loop stops without an exception, \<open>corrupted_messages\<close> is
  unchanged, the callback is not invoked for that frame, \<open>bytes_received\<close> is
  unchanged, and the buffer is what follows the frame.
\<close>

theorem C3_decode_failure_not_counted:
  assumes "slice_frame (message_buffer s) = Inr (payload, r)"
    and "1 < length payload" and "P payload = None"
  shows "fst (drain P s) = None \<and>
         corrupted_messages (snd (drain P s)) = corrupted_messages s \<and>
         calls (snd (drain P s)) = calls s \<and>
         bytes_received (snd (drain P s)) = bytes_received s \<and>
         message_buffer (snd (drain P s)) = r"
  using drain_sliced_none [where P = P, OF assms(1)] assms(3) by simp

theorem C3_witness:
  "slice_frame (message_buffer (fresh\<lparr>message_buffer := [0, 2, 9, 9, 0, 2, 1, 1]\<rparr>))
     = Inr ([9, 9], [0, 2, 1, 1]) \<and>
   1 < length [9, 9 :: byte] \<and> example_parser [9, 9] = None \<and>
   fst (drain example_parser (fresh\<lparr>message_buffer := [0, 2, 9, 9, 0, 2, 1, 1]\<rparr>)) = None \<and>
   corrupted_messages (snd (drain example_parser (fresh\<lparr>message_buffer := [0, 2, 9, 9, 0, 2, 1, 1]\<rparr>))) = 0 \<and>
   calls (snd (drain example_parser (fresh\<lparr>message_buffer := [0, 2, 9, 9, 0, 2, 1, 1]\<rparr>))) = [] \<and>
   bytes_received (snd (drain example_parser (fresh\<lparr>message_buffer := [0, 2, 9, 9, 0, 2, 1, 1]\<rparr>))) = 0 \<and>
   message_buffer (snd (drain example_parser (fresh\<lparr>message_buffer := [0, 2, 9, 9, 0, 2, 1, 1]\<rparr>))) = [0, 2, 1, 1]"
proof -
  let ?s = "fresh\<lparr>message_buffer := [0, 2, 9, 9, 0, 2, 1, 1]\<rparr>"
  have a: "slice_frame (message_buffer ?s) = Inr ([9, 9], [0, 2, 1, 1])"
    by (simp add: slice_frame_def DecodeVarint_def loop_steps)
  have b: "1 < length [9, 9 :: byte]" by simp
  have c: "example_parser [9, 9] = None"
    by (simp add: example_parser_def)
  show ?thesis
    using a b c
      C3_decode_failure_not_counted [of ?s "[9, 9]" "[0, 2, 1, 1]" example_parser, OF a b c]
    by (simp add: fresh_def init_def)
qed

subsection \<open>C4: a complete frame at the head of the buffer\<close>

text \<open>
  C4: when the buffer starts with a sentinel byte, a complete varint that declares the
  length \<open>L\<close> and at least \<open>L\<close> further bytes, frame extraction takes exactly the \<open>L\<close>
  bytes after the varint as the payload, unchanged, removes the sentinel, the varint and
  the payload from the front of the buffer, and reports \<open>L\<close> as the byte count. The
  payload is what the deserializer is given when \<open>L\<close> is more than 1.
\<close>

theorem C4_complete_frame_extracted:
  assumes "complete_varint vs" and "declared_length vs = L" and "L \<le> length tail"
  shows "slice_frame (0 # vs @ tail) =
           Inr (take L tail, drop (1 + length vs + L) (0 # vs @ tail)) \<and>
         parse_message P (0 # vs @ tail) =
           Inr (if 1 < L then map_option message_dict (P (take L tail)) else None,
                drop (1 + length vs + L) (0 # vs @ tail), L) \<and>
         length (take L tail) = L"
proof -
  have s: "slice_frame (0 # vs @ tail) = Inr (take L tail, drop L tail)"
    using slice_frame_head [OF assms(1), of tail] assms(2) by simp
  show ?thesis
    using parse_message_sliced [OF s, of P] s assms(3) by auto
qed

theorem C4_witness:
  "complete_varint [3] \<and> declared_length [3] = 3 \<and> (3::nat) \<le> length [2, 2, 2, 0, 1 :: byte] \<and>
   slice_frame [0, 3, 2, 2, 2, 0, 1] = Inr ([2, 2, 2], [0, 1]) \<and>
   parse_message example_parser [0, 3, 2, 2, 2, 0, 1] =
     Inr (Some [(''bus'', PyInt 1), (''id'', PyInt 256), (''data'', PyStr ''0xdeadbeef'')],
          [0, 1], 3)"
proof -
  have a: "complete_varint [3]" by (simp add: complete_varint_def)
  have b: "declared_length [3] = 3" by (simp add: declared_length_def)
  have c: "(3::nat) \<le> length [2, 2, 2, 0, 1 :: byte]" by simp
  show ?thesis
    using a b c C4_complete_frame_extracted [OF a b c, of example_parser]
    by (simp add: example_parser_values can_dict)
qed

subsection \<open>C5: what reaches the callback\<close>

text \<open>
  C5: whatever the reads bring and however the loop ends, every message in the callback
  log of a source run from construction is a decoded message (the dict of a payload that
  deserialized) that holds the keys name and value, or the keys id and data. A decoded
  message that holds neither pair is dropped: the inner loop stops, \<open>corrupted_messages\<close>
  goes up by one and the callback log is unchanged. The callback is only ever handed such
  messages; exceptions and rejected frames never reach it.
\<close>

theorem C5_callback_sees_only_recognized_messages:
  "(\<forall>e\<in>set (calls (snd (run P reads (init cb)))).
      recognized (fst e) \<and> (\<exists>p v. P p = Some v \<and> fst e = message_dict v)) \<and>
   (slice_frame (message_buffer s) = Inr (payload, r) \<and> 1 < length payload \<and>
    P payload = Some v \<and> \<not> recognized (message_dict v) \<longrightarrow>
      drain P s = (None, s\<lparr>message_buffer := r,
                             corrupted_messages := corrupted_messages s + 1\<rparr>))"
proof -
  let ?Q = "\<lambda>m. recognized m \<and> (\<exists>p v. P p = Some v \<and> m = message_dict v)"
  have "\<forall>e\<in>set (calls (init cb)). ?Q (fst e)"
    by (simp add: init_def)
  then have "\<forall>e\<in>set (calls (snd (run_loop P reads (init cb)))). ?Q (fst e)"
    by (rule run_loop_calls_inv [where Q = ?Q, rotated]) blast
  then have "\<forall>e\<in>set (calls (snd (run P reads (init cb)))). ?Q (fst e)"
    by (simp only: run_init)
  moreover have "drain P s = (None, s\<lparr>message_buffer := r,
                             corrupted_messages := corrupted_messages s + 1\<rparr>)"
    if "slice_frame (message_buffer s) = Inr (payload, r)" "1 < length payload"
      "P payload = Some v" "\<not> recognized (message_dict v)"
    using that by (rule drain_sliced_reject [where P = P])
  ultimately show ?thesis by blast
qed

theorem C5_witness:
  "calls (snd (run example_parser three_reads (init True))) =
     [([(''name'', PyStr ''speed''), (''value'', PyFloat 42)], False),
      ([(''bus'', PyInt 1), (''id'', PyInt 256), (''data'', PyStr ''0xdeadbeef'')], False)] \<and>
   recognized [(''name'', PyStr ''speed''), (''value'', PyFloat (42::int))] \<and>
   recognized [(''bus'', PyInt 1), (''id'', PyInt 256), (''data'', PyStr ''0xdeadbeef'') :: string \<times> int pyval] \<and>
   slice_frame (message_buffer (fresh\<lparr>message_buffer := [0, 2, 3, 3]\<rparr>)) = Inr ([3, 3], []) \<and>
   1 < length [3, 3 :: byte] \<and> example_parser [3, 3] = Some bare_message \<and>
   \<not> recognized (message_dict bare_message) \<and>
   drain example_parser (fresh\<lparr>message_buffer := [0, 2, 3, 3]\<rparr>) =
     (None, fresh\<lparr>message_buffer := [], corrupted_messages := 1\<rparr>)"
proof -
  let ?s = "fresh\<lparr>message_buffer := [0, 2, 3, 3]\<rparr>"
  let ?e1 = "([(''name'', PyStr ''speed''), (''value'', PyFloat (42::int))], False)"
  let ?e2 = "([(''bus'', PyInt 1), (''id'', PyInt 256), (''data'', PyStr ''0xdeadbeef'')
               :: string \<times> int pyval], False)"
  note inst = C5_callback_sees_only_recognized_messages
    [of example_parser three_reads True ?s "[3, 3]" "[]" bare_message]
  have a: "slice_frame (message_buffer ?s) = Inr ([3, 3], [])"
    using slice_frame_framed [of "[]" "[2]" "[3, 3]" "[]"] by (simp add: one_byte_varint)
  have b: "1 < length [3, 3 :: byte]" by simp
  have c: "example_parser [3, 3] = Some bare_message" by (rule example_parser_values)
  have d: "\<not> recognized (message_dict bare_message)" by (rule bare_not_recognized)
  have log: "calls (snd (run example_parser three_reads (init True))) = [?e1, ?e2]"
    using three_reads_run by (simp add: run_init fresh_def)
  have m1: "?e1 \<in> set (calls (snd (run example_parser three_reads (init True))))"
    and m2: "?e2 \<in> set (calls (snd (run example_parser three_reads (init True))))"
    unfolding log by simp_all
  have p1: "recognized (fst ?e1)"
    using bspec [OF inst [THEN conjunct1] m1] by (rule conjunct1)
  have p2: "recognized (fst ?e2)"
    using bspec [OF inst [THEN conjunct1] m2] by (rule conjunct1)
  have p3: "drain example_parser ?s = (None, fresh\<lparr>message_buffer := [], corrupted_messages := 1\<rparr>)"
    using inst [THEN conjunct2] a b c d by (simp add: fresh_def init_def)
  show ?thesis
    by (intro conjI) (rule log, rule p1 [unfolded fst_conv], rule p2 [unfolded fst_conv],
        rule a, rule b, rule c, rule d, rule p3)
qed

subsection \<open>C6: what \<open>bytes_received\<close> counts\<close>

text \<open>
  C6: over any reads, from any state, \<open>bytes_received\<close> grows by the sum of the lengths
  of the payloads of the frames that were accepted and dispatched, and by nothing else:
  sentinel bytes, varint bytes and the bytes of frames that were not dispatched are not
  counted. With a callback set, the messages added to the callback log are exactly the
  decoded payloads of those frames, one call per frame, in order. From construction the
  counter starts at 0, so it equals that sum.
\<close>

theorem C6_bytes_received_sums_payload_lengths:
  "bytes_received (snd (run_loop P reads s)) =
     bytes_received s + sum_list (map length (run_dispatched P reads s)) \<and>
   (callback s \<longrightarrow>
      map (\<lambda>c. Some (fst c)) (calls (snd (run_loop P reads s))) =
        map (\<lambda>c. Some (fst c)) (calls s) @
        map (\<lambda>p. map_option message_dict (P p)) (run_dispatched P reads s)) \<and>
   bytes_received (snd (run P reads (init cb))) =
     sum_list (map length (run_dispatched P reads (init cb)))"
proof -
  have "bytes_received (snd (run P reads (init cb))) =
     sum_list (map length (run_dispatched P reads (init cb)))"
    by (simp add: run_init run_loop_bytes_received) (simp add: init_def)
  then show ?thesis
    using run_loop_bytes_received [of P reads s] run_loop_calls [of s P reads] by blast
qed

theorem C6_witness:
  "callback fresh \<and>
   run_dispatched example_parser three_reads fresh = [[1, 1], [2, 2, 2]] \<and>
   bytes_received (snd (run_loop example_parser three_reads fresh)) = 5 \<and>
   map (\<lambda>c. Some (fst c)) (calls (snd (run_loop example_parser three_reads fresh))) =
     [Some [(''name'', PyStr ''speed''), (''value'', PyFloat 42)],
      Some [(''bus'', PyInt 1), (''id'', PyInt 256), (''data'', PyStr ''0xdeadbeef'')]]"
proof -
  note inst = C6_bytes_received_sums_payload_lengths [of example_parser three_reads fresh True]
  have cb: "callback fresh" by (simp add: fresh_def init_def)
  have z: "bytes_received fresh = 0" "calls fresh = []" by (simp_all add: fresh_def init_def)
  have g: "run_dispatched example_parser three_reads fresh = [[1, 1], [2, 2, 2]]"
    by (rule three_reads_dispatched)
  have p1: "bytes_received (snd (run_loop example_parser three_reads fresh)) = 5"
    using inst [THEN conjunct1] by (simp add: g z)
  have p2: "map (\<lambda>c. Some (fst c)) (calls (snd (run_loop example_parser three_reads fresh))) =
     [Some [(''name'', PyStr ''speed''), (''value'', PyFloat 42)],
      Some [(''bus'', PyInt 1), (''id'', PyInt 256), (''data'', PyStr ''0xdeadbeef'')]]"
    using inst [THEN conjunct2, THEN conjunct1, rule_format, OF cb]
    by (simp add: g z example_parser_values speed_dict can_dict)
  show ?thesis
    by (intro conjI) (rule cb, rule g, rule p1, rule p2)
qed

subsection \<open>C7: two frames in one read\<close>

text \<open>
  C7 says that a single read which appends two complete, valid, shape-passing frames to
  the buffer leads to exactly two calls of the callback, the first with
  \<open>data_remaining\<close> true and the second with \<open>data_remaining\<close> false. It depends on
  what the buffer held before the read. After a read of a frame with a one-byte payload
  followed by a good frame, the good frame is still in the buffer, and the read of two
  good frames leads to three calls, with \<open>data_remaining\<close> true, true, false. After a
  read of a lone sentinel byte, the read of the same two frames leads to no call at all:
  the sentinel of the first frame is read as the length 0.
\<close>

theorem C7_counterexample:
  "calls (snd (run_loop example_parser [Data [0, 1, 7, 0, 2, 1, 1]] fresh)) = [] \<and>
   calls (snd (run_loop example_parser
            [Data [0, 1, 7, 0, 2, 1, 1], Data [0, 2, 1, 1, 0, 3, 2, 2, 2]] fresh)) =
     [([(''name'', PyStr ''speed''), (''value'', PyFloat 42)], True),
      ([(''name'', PyStr ''speed''), (''value'', PyFloat 42)], True),
      ([(''bus'', PyInt 1), (''id'', PyInt 256), (''data'', PyStr ''0xdeadbeef'')], False)] \<and>
   calls (snd (run_loop example_parser
            [Data [0, 1, 7, 0, 2, 1, 1], Data [0, 2, 1, 1, 0, 3, 2, 2, 2]] fresh)) \<noteq>
     calls (snd (run_loop example_parser [Data [0, 1, 7, 0, 2, 1, 1]] fresh)) @
     [(message_dict speed_message, True), (message_dict can_message, False)] \<and>
   calls (snd (run_loop example_parser [Data [0]] fresh)) = [] \<and>
   calls (snd (run_loop example_parser [Data [0], Data [0, 2, 1, 1, 0, 3, 2, 2, 2]] fresh)) = [] \<and>
   calls (snd (run_loop example_parser [Data [0], Data [0, 2, 1, 1, 0, 3, 2, 2, 2]] fresh)) \<noteq>
     calls (snd (run_loop example_parser [Data [0]] fresh)) @
     [(message_dict speed_message, True), (message_dict can_message, False)]"
proof -
  have a: "run_loop example_parser [Data [0, 1, 7, 0, 2, 1, 1]] fresh =
             (Reading, fresh\<lparr>message_buffer := [0, 2, 1, 1]\<rparr>)"
    using leftover_frame_first_read [of "[]"] by simp
  have b: "run_loop example_parser
             [Data [0, 1, 7, 0, 2, 1, 1], Data [0, 2, 1, 1, 0, 3, 2, 2, 2]] fresh =
           run_loop example_parser [Data [0, 2, 1, 1, 0, 3, 2, 2, 2]]
             (fresh\<lparr>message_buffer := [0, 2, 1, 1]\<rparr>)"
    by (rule leftover_frame_first_read)
  have c: "run_loop example_parser [Data [0]] fresh = (Reading, fresh\<lparr>message_buffer := [0]\<rparr>)"
    by (simp add: drain_sliced_none [where md = "[]" and r = "[0]"] slice_frame_def
        fresh_def init_def)
  show ?thesis
    unfolding a b c leftover_frame_second_read leftover_sentinel_run
    by (simp add: fresh_def init_def)
qed

text \<open>
  C7 as amended: when a callback is set and the buffer holds no sentinel byte before the
  read (in particular when it is empty), a single read that appends two complete frames
  whose payloads are longer than one byte, deserialize and pass the key-set test adds
  exactly two calls to the callback log, the first frame's message with
  \<open>data_remaining\<close> true and then the second frame's message with \<open>data_remaining\<close>
  false, and the loop goes on to the next read with an empty buffer.
\<close>

theorem C7_two_frames_in_one_read:
  assumes cb: "callback s" and pre: "0 \<notin> set (message_buffer s)"
    and f1: "complete_varint vs1" "declared_length vs1 = length p1" "1 < length p1"
            "P p1 = Some v1" "recognized (message_dict v1)"
    and f2: "complete_varint vs2" "declared_length vs2 = length p2" "1 < length p2"
            "P p2 = Some v2" "recognized (message_dict v2)"
  shows "run_loop P (Data (0 # vs1 @ p1 @ 0 # vs2 @ p2) # rs) s =
           run_loop P rs
             (s\<lparr>bytes_received := bytes_received s + length p1 + length p2,
                message_buffer := [],
                calls := calls s @ [(message_dict v1, True), (message_dict v2, False)]\<rparr>)"
proof -
  let ?s0 = "s\<lparr>message_buffer := message_buffer s @ 0 # vs1 @ p1 @ 0 # vs2 @ p2\<rparr>"
  let ?s1 = "dispatch (message_dict v1) (length p1) (?s0\<lparr>message_buffer := 0 # vs2 @ p2\<rparr>)"
  let ?s2 = "dispatch (message_dict v2) (length p2) (?s1\<lparr>message_buffer := []\<rparr>)"
  have "drain P ?s0 = drain P ?s1"
    using pre f1 by (intro drain_framed_dispatch [where pre = "message_buffer s" and vs = vs1]) simp_all
  also have "\<dots> = (None, ?s2)"
    using f2 by (intro drain_one_frame_dispatched [where vs = vs2]) simp_all
  finally have "drain P ?s0 = (None, ?s2)" .
  moreover have "?s2 = s\<lparr>bytes_received := bytes_received s + length p1 + length p2,
      message_buffer := [],
      calls := calls s @ [(message_dict v1, True), (message_dict v2, False)]\<rparr>"
    using cb by (simp add: dispatch_def Let_def)
  ultimately show ?thesis by simp
qed

theorem C7_witness:
  "callback fresh \<and> 0 \<notin> set (message_buffer fresh) \<and>
   complete_varint [2] \<and> declared_length [2] = length [1, 1 :: byte] \<and>
   1 < length [1, 1 :: byte] \<and> example_parser [1, 1] = Some speed_message \<and>
   recognized (message_dict speed_message) \<and>
   complete_varint [3] \<and> declared_length [3] = length [2, 2, 2 :: byte] \<and>
   1 < length [2, 2, 2 :: byte] \<and> example_parser [2, 2, 2] = Some can_message \<and>
   recognized (message_dict can_message) \<and>
   run_loop example_parser [Data [0, 2, 1, 1, 0, 3, 2, 2, 2]] fresh =
     (Reading,
      fresh\<lparr>bytes_received := 5, message_buffer := [],
        calls := [([(''name'', PyStr ''speed''), (''value'', PyFloat 42)], True),
                  ([(''bus'', PyInt 1), (''id'', PyInt 256), (''data'', PyStr ''0xdeadbeef'')],
                   False)]\<rparr>)"
proof -
  have h: "callback fresh" "0 \<notin> set (message_buffer fresh)"
    by (simp_all add: fresh_def init_def)
  have a: "complete_varint [2]" "declared_length [2] = length [1, 1 :: byte]"
    "1 < length [1, 1 :: byte]" "example_parser [1, 1] = Some speed_message"
    "recognized (message_dict speed_message)"
    by (simp_all add: one_byte_varint example_parser_values speed_recognized)
  have b: "complete_varint [3]" "declared_length [3] = length [2, 2, 2 :: byte]"
    "1 < length [2, 2, 2 :: byte]" "example_parser [2, 2, 2] = Some can_message"
    "recognized (message_dict can_message)"
    by (simp_all add: one_byte_varint example_parser_values can_recognized)
  have "run_loop example_parser [Data [0, 2, 1, 1, 0, 3, 2, 2, 2]] fresh =
     (Reading,
      fresh\<lparr>bytes_received := 5, message_buffer := [],
        calls := [([(''name'', PyStr ''speed''), (''value'', PyFloat 42)], True),
                  ([(''bus'', PyInt 1), (''id'', PyInt 256), (''data'', PyStr ''0xdeadbeef'')],
                   False)]\<rparr>)"
    using C7_two_frames_in_one_read [OF h a b, of "[]"]
    by (simp add: speed_dict can_dict fresh_def init_def)
  with h a b show ?thesis by simp
qed

subsection \<open>C8: frames with a payload of at most one byte\<close>

text \<open>
  C8: a complete frame whose declared payload length is 0 or 1 is removed from the
  buffer, and nothing else happens: the result does not depend on the deserializer, the
  inner loop stops with the callback log and both counters as they were.
\<close>

theorem C8_noop_frame_consumed_silently:
  assumes "complete_varint vs" and "declared_length vs = L" and "L \<le> 1"
    and "L \<le> length tail" and "message_buffer s = 0 # vs @ tail"
  shows "parse_message P (message_buffer s) = Inr (None, drop L tail, L) \<and>
         drain P s = (None, s\<lparr>message_buffer := drop L tail\<rparr>)"
proof -
  have sl: "slice_frame (message_buffer s) = Inr (take L tail, drop L tail)"
    using slice_frame_head [OF assms(1), of tail] assms(2,5) by simp
  have short: "\<not> 1 < length (take L tail)"
    using assms(3) by simp
  have "parse_message P (message_buffer s) = Inr (None, drop L tail, L)"
    using parse_message_sliced [OF sl, of P] short assms(4) by simp
  moreover have "drain P s = (None, s\<lparr>message_buffer := drop L tail\<rparr>)"
    using short by (intro drain_sliced_none [OF sl]) simp
  ultimately show ?thesis by simp
qed

theorem C8_witness:
  "complete_varint [1] \<and> declared_length [1] = 1 \<and> (1::nat) \<le> 1 \<and>
   (1::nat) \<le> length [7, 0, 2, 1, 1 :: byte] \<and>
   message_buffer (fresh\<lparr>message_buffer := [0, 1, 7, 0, 2, 1, 1]\<rparr>) = 0 # [1] @ [7, 0, 2, 1, 1] \<and>
   parse_message example_parser [0, 1, 7, 0, 2, 1, 1] = Inr (None, [0, 2, 1, 1], 1) \<and>
   drain example_parser (fresh\<lparr>message_buffer := [0, 1, 7, 0, 2, 1, 1]\<rparr>) =
     (None, fresh\<lparr>message_buffer := [0, 2, 1, 1]\<rparr>)"
proof -
  let ?s = "fresh\<lparr>message_buffer := [0, 1, 7, 0, 2, 1, 1]\<rparr>"
  have a: "complete_varint [1]" by (simp add: complete_varint_def)
  have b: "declared_length [1] = 1" by (simp add: declared_length_def)
  have c: "(1::nat) \<le> 1" by simp
  have d: "(1::nat) \<le> length [7, 0, 2, 1, 1 :: byte]" by simp
  have e: "message_buffer ?s = 0 # [1] @ [7, 0, 2, 1, 1]" by simp
  show ?thesis
    using a b c d e C8_noop_frame_consumed_silently [OF a b c d e, of example_parser]
    by simp
qed

subsection \<open>C9: the counters never go down\<close>

text \<open>
  C9: \<open>__init__\<close> sets \<open>bytes_received\<close> and \<open>corrupted_messages\<close> to 0, and
  from then on neither counter decreases: not over one run of the inner loop from any
  state, and not between the state the ingestion loop has reached after some reads and
  the state it has reached after any further reads, whatever the outcome (still reading,
  stopped by DataSourceError, or left by an exception).
\<close>

theorem C9_counters_monotone:
  "bytes_received (init cb) = 0 \<and> corrupted_messages (init cb) = 0 \<and>
   bytes_received s \<le> bytes_received (snd (drain P s)) \<and>
   corrupted_messages s \<le> corrupted_messages (snd (drain P s)) \<and>
   bytes_received (snd (run_loop P rs s)) \<le> bytes_received (snd (run_loop P (rs @ rs') s)) \<and>
   corrupted_messages (snd (run_loop P rs s)) \<le>
     corrupted_messages (snd (run_loop P (rs @ rs') s))"
proof -
  have b: "bytes_received t \<le> bytes_received (snd (run_loop P reads t))" for reads t
    by (simp add: run_loop_bytes_received)
  have c: "corrupted_messages t \<le> corrupted_messages (snd (run_loop P reads t))" for reads t
    by (rule run_loop_corrupted_mono)
  have "bytes_received (snd (run_loop P rs s)) \<le> bytes_received (snd (run_loop P (rs @ rs') s)) \<and>
        corrupted_messages (snd (run_loop P rs s)) \<le>
          corrupted_messages (snd (run_loop P (rs @ rs') s))"
  proof (cases rule: run_loop_prefix [of P rs rs' s])
    case 1
    then show ?thesis by simp
  next
    case (2 s')
    then show ?thesis using b [of s' rs'] c [of s' rs'] by simp
  qed
  moreover have "bytes_received s \<le> bytes_received (snd (drain P s))"
    by (simp add: drain_bytes_received)
  moreover have "corrupted_messages s \<le> corrupted_messages (snd (drain P s))"
    by (rule drain_corrupted_mono)
  ultimately show ?thesis by (simp add: init_def)
qed

subsection \<open>C10: the inner loop stops at a frame it does not dispatch\<close>

text \<open>
  C10: when, after a read, the buffer starts with a complete frame that yields no
  dispatchable message (its payload has at most one byte, or fails to deserialize, or
  deserializes to a message that fails the key-set test), the read cycle ends with that
  one frame: the callback log and \<open>bytes_received\<close> are unchanged, everything behind
  the frame stays in the buffer, whatever frames it holds, and the loop goes on to the
  next read. Only the key-set failure is counted in \<open>corrupted_messages\<close>.
\<close>

theorem C10_cycle_ends_after_undispatchable_frame:
  assumes "complete_varint vs" and "declared_length vs = L" and "L \<le> length tail"
    and "message_buffer s @ bs = 0 # vs @ tail"
    and "L \<le> 1 \<or> P (take L tail) = None \<or>
         (\<exists>v. P (take L tail) = Some v \<and> \<not> recognized (message_dict v))"
  shows "run_loop P (Data bs # rs) s =
           run_loop P rs (s\<lparr>message_buffer := drop L tail,
                             corrupted_messages := corrupted_messages s +
                               (if 1 < L \<and> P (take L tail) \<noteq> None then 1 else 0)\<rparr>)"
proof -
  let ?s = "s\<lparr>message_buffer := message_buffer s @ bs\<rparr>"
  have sl: "slice_frame (message_buffer ?s) = Inr (take L tail, drop L tail)"
    using slice_frame_head [OF assms(1), of tail] assms(2,4) by simp
  have len: "length (take L tail) = L"
    using assms(3) by simp
  show ?thesis
  proof (cases "1 < L \<and> P (take L tail) \<noteq> None")
    case False
    then have "\<not> 1 < length (take L tail) \<or> P (take L tail) = None"
      using len by auto
    then have "drain P ?s = (None, ?s\<lparr>message_buffer := drop L tail\<rparr>)"
      by (rule drain_sliced_none [OF sl])
    moreover from False
    have "(if 1 < L \<and> P (take L tail) \<noteq> None then 1 else 0) = (0::nat)"
      by (rule if_not_P)
    ultimately show ?thesis by simp
  next
    case True
    with assms(5) obtain v where v: "P (take L tail) = Some v" "\<not> recognized (message_dict v)"
      by auto
    have "drain P ?s = (None, ?s\<lparr>message_buffer := drop L tail,
                                  corrupted_messages := corrupted_messages ?s + 1\<rparr>)"
      using True len v by (intro drain_sliced_reject [OF sl]) simp_all
    moreover from True
    have "(if 1 < L \<and> P (take L tail) \<noteq> None then 1 else 0) = (1::nat)"
      by (rule if_P)
    ultimately show ?thesis by simp
  qed
qed

text \<open>
  An instance: a frame with a one-byte payload followed by a good frame. The good frame
  stays in the buffer after the first read, and is dispatched after the second read,
  which brings no bytes at all.
\<close>

theorem C10_witness:
  "complete_varint [1] \<and> declared_length [1] = 1 \<and> (1::nat) \<le> length [7, 0, 2, 1, 1 :: byte] \<and>
   message_buffer fresh @ [0, 1, 7, 0, 2, 1, 1] = 0 # [1] @ [7, 0, 2, 1, 1] \<and>
   run_loop example_parser [Data [0, 1, 7, 0, 2, 1, 1]] fresh =
     (Reading, fresh\<lparr>message_buffer := [0, 2, 1, 1]\<rparr>) \<and>
   run_loop example_parser [Data [0, 1, 7, 0, 2, 1, 1], Data []] fresh =
     (Reading,
      fresh\<lparr>bytes_received := 2, message_buffer := [],
        calls := [([(''name'', PyStr ''speed''), (''value'', PyFloat 42)], False)]\<rparr>)"
proof -
  have a: "complete_varint [1]" by (simp add: one_byte_varint)
  have b: "declared_length [1] = 1" by (simp add: one_byte_varint)
  have c: "(1::nat) \<le> length [7, 0, 2, 1, 1 :: byte]" by simp
  have d: "message_buffer fresh @ [0, 1, 7, 0, 2, 1, 1] = 0 # [1] @ [7, 0, 2, 1, 1]"
    by (simp add: fresh_def init_def)
  have e: "(1::nat) \<le> 1 \<or> example_parser (take 1 [7, 0, 2, 1, 1]) = None \<or>
      (\<exists>v. example_parser (take 1 [7, 0, 2, 1, 1]) = Some v \<and> \<not> recognized (message_dict v))"
    by simp
  let ?s = "fresh\<lparr>message_buffer := [0, 2, 1, 1]\<rparr>"
  have next_read:
    "drain example_parser (?s\<lparr>message_buffer := message_buffer ?s @ []\<rparr>) =
       (None, dispatch (message_dict speed_message) (length [1, 1 :: byte])
                (?s\<lparr>message_buffer := message_buffer ?s @ [], message_buffer := []\<rparr>))"
    by (rule drain_one_frame_dispatched [where vs = "[2]"])
       (simp_all add: one_byte_varint example_parser_values speed_recognized)
  have first: "run_loop example_parser ([Data [0, 1, 7, 0, 2, 1, 1]] @ rs) fresh =
      run_loop example_parser rs ?s" for rs
    using C10_cycle_ends_after_undispatchable_frame
      [of "[1]" 1 "[7, 0, 2, 1, 1]" fresh "[0, 1, 7, 0, 2, 1, 1]" example_parser rs, OF a b c d e]
    by simp
  have r1: "run_loop example_parser [Data [0, 1, 7, 0, 2, 1, 1]] fresh = (Reading, ?s)"
    using first [of "[]"] by simp
  have r2: "run_loop example_parser [Data [0, 1, 7, 0, 2, 1, 1], Data []] fresh =
     (Reading,
      fresh\<lparr>bytes_received := 2, message_buffer := [],
        calls := [([(''name'', PyStr ''speed''), (''value'', PyFloat 42)], False)]\<rparr>)"
    using first [of "[Data []]"] next_read
    by (simp add: speed_dict dispatch_def Let_def fresh_def init_def)
  show ?thesis
    by (intro conjI) (rule a, rule b, rule c, rule d, rule r1, rule r2)
qed

end
